theory Spec2Isabelle
  imports Complex_Main "HOL-Library.Sublist"
begin

section \<open>JSON values and Python dictionaries\<close>

text \<open>
  A value produced by \<^verbatim>\<open>response.json()\<close>. A JSON object is a Python \<^verbatim>\<open>dict\<close>, kept as
  an association list in insertion order; a number with a fraction or an exponent is a
  Python \<^verbatim>\<open>float\<close>, kept as the rational number that is its value (Python compares
  \<^verbatim>\<open>int\<close> and \<^verbatim>\<open>float\<close> by value). The constants \<^verbatim>\<open>NaN\<close> and \<^verbatim>\<open>Infinity\<close> are not represented.
\<close>

datatype json =
    JNull
  | JBool bool
  | JInt int
  | JFloat rat
  | JStr string
  | JList "json list"
  | JDict "(string \<times> json) list"

type_synonym pydict = "(string \<times> json) list"

text \<open>
  \<^verbatim>\<open>d[k] = v\<close>: an existing key keeps its position and takes the new value, a new key
  goes to the end.
\<close>

fun dict_set :: "string \<Rightarrow> json \<Rightarrow> pydict \<Rightarrow> pydict" where
  "dict_set k v [] = [(k, v)]"
| "dict_set k v ((k', v') # d) =
     (if k = k' then (k, v) # d else (k', v') # dict_set k v d)"

definition dict_get :: "pydict \<Rightarrow> string \<Rightarrow> json option" where
  "dict_get d k = map_of d k"

text \<open>
  A dict comprehension \<^verbatim>\<open>{k: v for ...}\<close> stores its items one after the other into
  an empty dict.
\<close>

definition dict_of_items :: "(string \<times> json) list \<Rightarrow> pydict" where
  "dict_of_items items = foldl (\<lambda>d (k, v). dict_set k v d) [] items"

abbreviation ins :: "pydict \<Rightarrow> (string \<times> json) list \<Rightarrow> pydict" where
  "ins \<equiv> foldl (\<lambda>d (k, v). dict_set k v d)"

text \<open>
  \<^verbatim>\<open>str.lower\<close> belongs to the Python runtime; the normalizer takes it as the parameter
  \<open>lower\<close>. \<open>ascii_lower\<close> is \<^verbatim>\<open>str.lower\<close> on ASCII text, used for concrete inputs.
\<close>

definition lower_char :: "char \<Rightarrow> char" where
  "lower_char c =
     (let n = (of_char c :: nat) in if 65 \<le> n \<and> n \<le> 90 then char_of (n + 32) else c)"

definition ascii_lower :: "string \<Rightarrow> string" where
  "ascii_lower s = map lower_char s"

text \<open>
  \<^verbatim>\<open>
  def standardize_keys_to_lowercase(data):
      if isinstance(data, dict):
          return {k.lower(): standardize_keys_to_lowercase(v) for k, v in data.items()}
      elif isinstance(data, list):
          return [standardize_keys_to_lowercase(elem) for elem in data]
      else:
          return data
  \<close>
\<close>

fun standardize_keys_to_lowercase :: "(string \<Rightarrow> string) \<Rightarrow> json \<Rightarrow> json" where
  "standardize_keys_to_lowercase lower (JDict kvs) =
     JDict (dict_of_items
       (map (\<lambda>(k, v). (lower k, standardize_keys_to_lowercase lower v)) kvs))"
| "standardize_keys_to_lowercase lower (JList xs) =
     JList (map (standardize_keys_to_lowercase lower) xs)"
| "standardize_keys_to_lowercase lower v = v"

section \<open>Python operators on JSON values\<close>

text \<open>
  The exceptions that the modelled statements can raise and that no \<^verbatim>\<open>except\<close> clause of
  the source catches.
\<close>

datatype exn = TypeError | KeyError | AttributeError

text \<open>
  \<^verbatim>\<open>bool\<close> is a subclass of \<^verbatim>\<open>int\<close>: \<^verbatim>\<open>True\<close> counts as 1 and \<^verbatim>\<open>False\<close> as 0.
\<close>

fun num_of :: "json \<Rightarrow> rat option" where
  "num_of (JBool b) = Some (if b then 1 else 0)"
| "num_of (JInt i) = Some (of_int i)"
| "num_of (JFloat r) = Some r"
| "num_of v = None"

text \<open>
  \<^verbatim>\<open>s < t\<close> on strings is lexicographic on code points, which is the byte order of
  their UTF-8 encodings.
\<close>

fun str_lt :: "string \<Rightarrow> string \<Rightarrow> bool" where
  "str_lt [] [] = False"
| "str_lt [] (y # ys) = True"
| "str_lt (x # xs) [] = False"
| "str_lt (x # xs) (y # ys) =
     (if x = y then str_lt xs ys else (of_char x :: nat) < of_char y)"

text \<open>
  \<^verbatim>\<open>v == w\<close>: numbers by value, strings by their characters, \<^verbatim>\<open>None\<close> only to
  \<^verbatim>\<open>None\<close>, lists element by element, dicts as mappings (same size, every key of the left one present in
  the right one with an equal value).
\<close>

fun py_eq :: "json \<Rightarrow> json \<Rightarrow> bool"
  and py_eq_list :: "json list \<Rightarrow> json list \<Rightarrow> bool"
  and py_eq_items :: "pydict \<Rightarrow> pydict \<Rightarrow> bool" where
  "py_eq (JList xs) w = (case w of JList ys \<Rightarrow> py_eq_list xs ys | _ \<Rightarrow> False)"
| "py_eq (JDict a) w =
     (case w of JDict b \<Rightarrow> length a = length b \<and> py_eq_items a b | _ \<Rightarrow> False)"
| "py_eq (JStr s) w = (case w of JStr t \<Rightarrow> s = t | _ \<Rightarrow> False)"
| "py_eq JNull w = (case w of JNull \<Rightarrow> True | _ \<Rightarrow> False)"
| "py_eq v w =
     (case num_of v of None \<Rightarrow> False
      | Some x \<Rightarrow> (case num_of w of None \<Rightarrow> False | Some y \<Rightarrow> x = y))"
| "py_eq_list [] ys = (ys = [])"
| "py_eq_list (x # xs) ys =
     (case ys of [] \<Rightarrow> False | y # ys' \<Rightarrow> py_eq x y \<and> py_eq_list xs ys')"
| "py_eq_items [] b = True"
| "py_eq_items ((k, v) # a) b =
     ((case map_of b k of None \<Rightarrow> False | Some w \<Rightarrow> py_eq v w) \<and> py_eq_items a b)"

text \<open>
  The values that Python can hold: no dict has the same key twice.
\<close>

fun wf_json :: "json \<Rightarrow> bool" where
  "wf_json (JDict d) = (distinct (map fst d) \<and> (\<forall>(k, v) \<in> set d. wf_json v))"
| "wf_json (JList xs) = (\<forall>x \<in> set xs. wf_json x)"
| "wf_json v = True"

text \<open>
  \<^verbatim>\<open>v < w\<close>: defined between numbers, between strings and between lists (the first
  pair of unequal elements decides, else the lengths); any other pair of operands raises
  \<^verbatim>\<open>TypeError\<close>.
\<close>

fun py_lt :: "json \<Rightarrow> json \<Rightarrow> exn + bool"
  and py_lt_list :: "json list \<Rightarrow> json list \<Rightarrow> exn + bool" where
  "py_lt (JList xs) w = (case w of JList ys \<Rightarrow> py_lt_list xs ys | _ \<Rightarrow> Inl TypeError)"
| "py_lt (JStr s) w = (case w of JStr t \<Rightarrow> Inr (str_lt s t) | _ \<Rightarrow> Inl TypeError)"
| "py_lt v w =
     (case num_of v of None \<Rightarrow> Inl TypeError
      | Some x \<Rightarrow> (case num_of w of None \<Rightarrow> Inl TypeError | Some y \<Rightarrow> Inr (x < y)))"
| "py_lt_list [] ys = Inr (ys \<noteq> [])"
| "py_lt_list (x # xs) ys =
     (case ys of [] \<Rightarrow> Inr False
      | y # ys' \<Rightarrow> if py_eq x y then py_lt_list xs ys' else py_lt x y)"

text \<open>
  \<^verbatim>\<open>k in obj\<close> for a string \<open>k\<close>: key membership in a dict, element membership in a
  list, substring test in a string, \<^verbatim>\<open>TypeError\<close> on \<^verbatim>\<open>None\<close>, booleans and numbers.
  \<^verbatim>\<open>obj[k]\<close> needs a dict; \<^verbatim>\<open>obj.get(k, default)\<close> likewise.
\<close>

fun py_contains :: "string \<Rightarrow> json \<Rightarrow> exn + bool" where
  "py_contains k (JDict d) = Inr (k \<in> fst ` set d)"
| "py_contains k (JList xs) = Inr (JStr k \<in> set xs)"
| "py_contains k (JStr s) = Inr (sublist k s)"
| "py_contains k v = Inl TypeError"

fun py_getitem :: "json \<Rightarrow> string \<Rightarrow> exn + json" where
  "py_getitem (JDict d) k = (case dict_get d k of None \<Rightarrow> Inl KeyError | Some v \<Rightarrow> Inr v)"
| "py_getitem v k = Inl TypeError"

fun py_get :: "json \<Rightarrow> string \<Rightarrow> json \<Rightarrow> exn + json" where
  "py_get (JDict d) k dflt = (case dict_get d k of None \<Rightarrow> Inr dflt | Some v \<Rightarrow> Inr v)"
| "py_get v k dflt = Inl AttributeError"

fun is_list :: "json \<Rightarrow> bool" where
  "is_list (JList xs) = True"
| "is_list v = False"

fun is_dict :: "json \<Rightarrow> bool" where
  "is_dict (JDict d) = True"
| "is_dict v = False"

fun list_items :: "json \<Rightarrow> json list" where
  "list_items (JList xs) = xs"
| "list_items v = []"

text \<open>
  The test \<^verbatim>\<open>k in obj and isinstance(obj[k], T)\<close>, evaluated left to right.
\<close>

definition key_is :: "string \<Rightarrow> (json \<Rightarrow> bool) \<Rightarrow> json \<Rightarrow> exn + bool" where
  "key_is k isinstance obj =
     (case py_contains k obj of
        Inl e \<Rightarrow> Inl e
      | Inr False \<Rightarrow> Inr False
      | Inr True \<Rightarrow>
          (case py_getitem obj k of Inl e \<Rightarrow> Inl e | Inr v \<Rightarrow> Inr (isinstance v)))"

section \<open>The paginated fetch\<close>

text \<open>
  What one pass through the \<^verbatim>\<open>try\<close> block obtains from the network:
  \<^verbatim>\<open>requests.get\<close> or \<^verbatim>\<open>raise_for_status\<close> raising a \<^verbatim>\<open>RequestException\<close>,
  \<^verbatim>\<open>response.json()\<close> raising a \<^verbatim>\<open>JSONDecodeError\<close>, or the parsed body. The network
  is a function \<open>http_get k req\<close> of the number \<open>k\<close> of requests issued before and of
  the request itself.
\<close>

datatype http_result = RequestException | JSONDecodeError | Parsed json

record request =
  url :: string
  query :: pydict

text \<open>
  The local variables of \<^verbatim>\<open>fetch_nba_data\<close>, the object store \<open>heap\<close> (a reference to
  a dict is an index into it), and the requests sent so far. The variable \<^verbatim>\<open>params\<close> is
  a reference that never changes inside the loop; it is passed beside the state.
\<close>

record fetch_state =
  all_data :: "json list"
  page :: int
  has_more_pages :: bool
  heap :: "pydict list"
  issued :: "request list"

text \<open>
  How the call ends: \<open>Inl e\<close> for an uncaught exception, \<open>Inr None\<close> for
  \<^verbatim>\<open>return None\<close>, \<open>Inr (Some ds)\<close> for \<^verbatim>\<open>return all_data\<close>.
\<close>

record fetch_result =
  returned :: "exn + json list option"
  requests :: "request list"
  final_heap :: "pydict list"

definition NBA_API_BASE_URL :: string where
  "NBA_API_BASE_URL = ''https://api.server.nbaapi.com''"

text \<open>
  \<^verbatim>\<open>
  if 'data' in json_response and isinstance(json_response['data'], list):
      all_data.extend(json_response['data'])
  elif isinstance(json_response, list):
       all_data.extend(json_response)
  else:
       if page == 1 and not all_data:
           all_data.append(json_response)
  \<close>
\<close>

definition extend_all_data :: "int \<Rightarrow> json list \<Rightarrow> json \<Rightarrow> exn + json list" where
  "extend_all_data pg acc json_response =
     (case key_is ''data'' is_list json_response of
        Inl e \<Rightarrow> Inl e
      | Inr True \<Rightarrow>
          (case py_getitem json_response ''data'' of
             Inl e \<Rightarrow> Inl e
           | Inr d \<Rightarrow> Inr (acc @ list_items d))
      | Inr False \<Rightarrow>
          if is_list json_response then Inr (acc @ list_items json_response)
          else if pg = 1 \<and> acc = [] then Inr (acc @ [json_response])
          else Inr acc)"

text \<open>
  \<^verbatim>\<open>
  if 'pagination' in json_response and isinstance(json_response['pagination'], dict):
      current_page_from_api = json_response['pagination'].get('page', 1)
      total_pages_from_api = json_response['pagination'].get('pages', current_page_from_api)
      if current_page_from_api < total_pages_from_api:
          page += 1
      else:
          has_more_pages = False
  else:
      has_more_pages = False
  \<close>
  The result \<open>Inr True\<close> stands for \<^verbatim>\<open>page += 1\<close>, \<open>Inr False\<close> for
  \<^verbatim>\<open>has_more_pages = False\<close>.
\<close>

definition more_pages :: "json \<Rightarrow> exn + bool" where
  "more_pages json_response =
     (case key_is ''pagination'' is_dict json_response of
        Inl e \<Rightarrow> Inl e
      | Inr True \<Rightarrow>
          (case py_getitem json_response ''pagination'' of
             Inl e \<Rightarrow> Inl e
           | Inr pagination \<Rightarrow>
               (case py_get pagination ''page'' (JInt 1) of
                  Inl e \<Rightarrow> Inl e
                | Inr current_page_from_api \<Rightarrow>
                    (case py_get pagination ''pages'' current_page_from_api of
                       Inl e \<Rightarrow> Inl e
                     | Inr total_pages_from_api \<Rightarrow>
                         py_lt current_page_from_api total_pages_from_api)))
      | Inr False \<Rightarrow> Inr False)"

text \<open>
  One pass through the body of \<^verbatim>\<open>while has_more_pages\<close>: store the page counter into
  the dict that \<^verbatim>\<open>params\<close> refers to, send the request, then either leave the function
  (\<open>Inl\<close>: \<^verbatim>\<open>return None\<close> in an \<^verbatim>\<open>except\<close> clause, or an uncaught exception) or
  go on with the updated variables (\<open>Inr\<close>).
\<close>

definition loop_body ::
  "(nat \<Rightarrow> request \<Rightarrow> http_result) \<Rightarrow> string \<Rightarrow> nat \<Rightarrow> fetch_state
     \<Rightarrow> fetch_result + fetch_state" where
  "loop_body http_get endpoint params s =
     (let h = (heap s)[params := dict_set ''page'' (JInt (page s)) (heap s ! params)];
          req = \<lparr>url = NBA_API_BASE_URL @ endpoint, query = h ! params\<rparr>;
          sent = issued s @ [req];
          leave = (\<lambda>r. Inl \<lparr>returned = r, requests = sent, final_heap = h\<rparr>)
      in case http_get (length (issued s)) req of
           RequestException \<Rightarrow> leave (Inr None)
         | JSONDecodeError \<Rightarrow> leave (Inr None)
         | Parsed json_response \<Rightarrow>
             (case extend_all_data (page s) (all_data s) json_response of
                Inl e \<Rightarrow> leave (Inl e)
              | Inr ds \<Rightarrow>
                  (case more_pages json_response of
                     Inl e \<Rightarrow> leave (Inl e)
                   | Inr True \<Rightarrow>
                       Inr (s\<lparr>all_data := ds, page := page s + 1, heap := h, issued := sent\<rparr>)
                   | Inr False \<Rightarrow>
                       Inr (s\<lparr>all_data := ds, has_more_pages := False, heap := h,
                              issued := sent\<rparr>))))"

definition leave_loop :: "fetch_state \<Rightarrow> fetch_result" where
  "leave_loop s =
     \<lparr>returned = Inr (Some (all_data s)), requests = issued s, final_heap = heap s\<rparr>"

text \<open>
  The loop has no bound on the number of pages: a run that never ends has the value
  \<open>None\<close>.
\<close>

partial_function (option) fetch_loop ::
  "(nat \<Rightarrow> request \<Rightarrow> http_result) \<Rightarrow> string \<Rightarrow> nat \<Rightarrow> fetch_state
     \<Rightarrow> fetch_result option" where
  "fetch_loop http_get endpoint params s =
     (if has_more_pages s then
        (case loop_body http_get endpoint params s of
           Inl r \<Rightarrow> Some r
         | Inr s' \<Rightarrow> fetch_loop http_get endpoint params s')
      else Some (leave_loop s))"

declare fetch_loop.simps [code]

text \<open>
  The caller passes \<^verbatim>\<open>None\<close> or a reference \<open>a\<close> to a dict of the store \<open>h\<close>. Both
  \<^verbatim>\<open>{}\<close> and \<^verbatim>\<open>params.copy()\<close> allocate a new dict, at the next free index
  \<open>length h\<close>, and the local variable \<^verbatim>\<open>params\<close> refers to it from then on.
\<close>

definition params_copy :: "nat option \<Rightarrow> pydict list \<Rightarrow> pydict" where
  "params_copy params h = (case params of None \<Rightarrow> [] | Some a \<Rightarrow> h ! a)"

definition fetch_init :: "nat option \<Rightarrow> pydict list \<Rightarrow> fetch_state" where
  "fetch_init params h =
     \<lparr>all_data = [], page = 1, has_more_pages = True, heap = h @ [params_copy params h],
      issued = []\<rparr>"

definition fetch_nba_data ::
  "(nat \<Rightarrow> request \<Rightarrow> http_result) \<Rightarrow> string \<Rightarrow> nat option \<Rightarrow> pydict list
     \<Rightarrow> fetch_result option" where
  "fetch_nba_data http_get endpoint params h =
     fetch_loop http_get endpoint (length h) (fetch_init params h)"

text \<open>
  The first \<open>n\<close> passes of the loop: \<open>Inr s\<close> when the loop is still running after them,
  in state \<open>s\<close>; \<open>Inl r\<close> when the function has ended with \<open>r\<close> by then.
\<close>

fun iterations ::
  "(nat \<Rightarrow> request \<Rightarrow> http_result) \<Rightarrow> string \<Rightarrow> nat \<Rightarrow> nat \<Rightarrow> fetch_state
     \<Rightarrow> fetch_result + fetch_state" where
  "iterations http_get endpoint params 0 s = Inr s"
| "iterations http_get endpoint params (Suc n) s =
     (if has_more_pages s then
        (case loop_body http_get endpoint params s of
           Inl r \<Rightarrow> Inl r
         | Inr s' \<Rightarrow> iterations http_get endpoint params n s')
      else Inl (leave_loop s))"

section \<open>Notions used to state the properties of the fetch\<close>

text \<open>The request for page \<open>i\<close>, given the caller's query parameters \<open>q\<close>.\<close>

definition page_request :: "string \<Rightarrow> pydict \<Rightarrow> int \<Rightarrow> request" where
  "page_request endpoint q i =
     \<lparr>url = NBA_API_BASE_URL @ endpoint, query = dict_set ''page'' (JInt i) q\<rparr>"

text \<open>
  The records gathered from consecutive bodies, the first of them received for page
  \<open>pg\<close>, starting from the records \<open>acc\<close>.
\<close>

fun collect :: "int \<Rightarrow> json list \<Rightarrow> json list \<Rightarrow> exn + json list" where
  "collect pg acc [] = Inr acc"
| "collect pg acc (b # bs) =
     (case extend_all_data pg acc b of
        Inl e \<Rightarrow> Inl e
      | Inr acc' \<Rightarrow> collect (pg + 1) acc' bs)"

text \<open>
  A body that carries the list \<open>records\<close> under \<^verbatim>\<open>data\<close> and the metadata
  \<^verbatim>\<open>{page: i, pages: n}\<close> under \<^verbatim>\<open>pagination\<close>.
\<close>

definition is_page :: "json \<Rightarrow> int \<Rightarrow> int \<Rightarrow> json list \<Rightarrow> bool" where
  "is_page body i n records =
     (case body of
        JDict d \<Rightarrow>
          dict_get d ''data'' = Some (JList records) \<and>
          (case dict_get d ''pagination'' of
             Some (JDict p) \<Rightarrow>
               dict_get p ''page'' = Some (JInt i) \<and> dict_get p ''pages'' = Some (JInt n)
           | _ \<Rightarrow> False)
      | _ \<Rightarrow> False)"

text \<open>
  A mock of the network that replays a fixed list of outcomes, one per request, and
  answers every later request with \<open>final\<close>.
\<close>

definition mock_server ::
  "http_result list \<Rightarrow> http_result \<Rightarrow> nat \<Rightarrow> request \<Rightarrow> http_result" where
  "mock_server rs final k req = (if k < length rs then rs ! k else final)"

text \<open>
  The loop invariant on the dict that \<^verbatim>\<open>params\<close> refers to: it is allocated, and it
  is the caller's parameters \<open>q\<close> up to the entry \<^verbatim>\<open>page\<close>.
\<close>

definition tracks :: "nat \<Rightarrow> pydict \<Rightarrow> fetch_state \<Rightarrow> bool" where
  "tracks p q s \<longleftrightarrow>
     p < length (heap s) \<and> (\<forall>v. dict_set ''page'' v (heap s ! p) = dict_set ''page'' v q)"

section \<open>Staging and loading\<close>

text \<open>\<^verbatim>\<open>sep.join(xs)\<close>.\<close>

fun py_join :: "string \<Rightarrow> string list \<Rightarrow> string" where
  "py_join sep [] = []"
| "py_join sep [x] = x"
| "py_join sep (x # y # ys) = x @ sep @ py_join sep (y # ys)"

text \<open>
  The storage client and \<^verbatim>\<open>json.dumps\<close> are collaborators: \<open>upload_from_string\<close> gets
  the credentials, bucket, object name, content and content type and the state of the
  outside world, and says whether the \<^verbatim>\<open>try\<close> block got through without an exception.
\<close>

definition upload_to_gcs ::
  "('c \<Rightarrow> string \<Rightarrow> string \<Rightarrow> string \<Rightarrow> string \<Rightarrow> 'w \<Rightarrow> bool \<times> 'w) \<Rightarrow> (json \<Rightarrow> string)
     \<Rightarrow> 'c \<Rightarrow> json \<Rightarrow> string \<Rightarrow> string \<Rightarrow> 'w \<Rightarrow> string option \<times> 'w" where
  "upload_to_gcs upload_from_string dumps credentials data bucket_name filename w =
     (let ndjson_data =
            (if is_list data then py_join [CHR 0x0A] (map dumps (list_items data))
             else dumps data)
      in case upload_from_string credentials bucket_name filename ndjson_data
                ''application/json'' w of
           (True, w') \<Rightarrow> (Some (''gs://'' @ bucket_name @ ''/'' @ filename), w')
         | (False, w') \<Rightarrow> (None, w'))"

record load_job_config =
  source_format :: string
  autodetect :: bool
  write_disposition :: string

text \<open>
  The warehouse is a collaborator: \<open>load_table_from_uri\<close> starts the job and waits for it;
  \<open>Some n\<close> is a job that completed with \<^verbatim>\<open>output_rows\<close> = \<open>n\<close>, \<open>None\<close> an exception
  inside the \<^verbatim>\<open>try\<close> block. The value returned is a Python value.
\<close>

definition load_json_to_bigquery ::
  "('c \<Rightarrow> string \<Rightarrow> string \<times> string \<Rightarrow> load_job_config \<Rightarrow> 'w \<Rightarrow> nat option \<times> 'w)
     \<Rightarrow> 'c \<Rightarrow> string \<Rightarrow> string \<Rightarrow> string \<Rightarrow> 'w \<Rightarrow> json \<times> 'w" where
  "load_json_to_bigquery load_table_from_uri credentials gcs_uri dataset_id table_id w =
     (let job_config =
            \<lparr>source_format = ''NEWLINE_DELIMITED_JSON'', autodetect = True,
             write_disposition = ''WRITE_TRUNCATE''\<rparr>
      in case load_table_from_uri credentials gcs_uri (dataset_id, table_id) job_config w of
           (Some output_rows, w') \<Rightarrow> (JBool True, w')
         | (None, w') \<Rightarrow> (JBool False, w'))"

text \<open>
  The staged content in the words of the specification: for a sequence, one encoded
  line per element, a single newline character between two lines and none after the
  last; for anything else, its encoding alone.
\<close>

definition ndjson_content :: "(json \<Rightarrow> string) \<Rightarrow> json \<Rightarrow> string" where
  "ndjson_content dumps data =
     (case data of
        JList [] \<Rightarrow> []
      | JList (r # rest) \<Rightarrow> dumps r @ concat (map (\<lambda>x. CHR 0x0A # dumps x) rest)
      | _ \<Rightarrow> dumps data)"

text \<open>
  Stand-ins for the two collaborators on concrete inputs: an object store held in memory,
  a map from bucket and object name to content and content type, which accepts every
  write; and a warehouse whose load job ends as \<open>outcome\<close> says.
\<close>

definition memory_upload ::
  "unit \<Rightarrow> string \<Rightarrow> string \<Rightarrow> string \<Rightarrow> string \<Rightarrow> (string \<times> string \<rightharpoonup> string \<times> string)
     \<Rightarrow> bool \<times> (string \<times> string \<rightharpoonup> string \<times> string)" where
  "memory_upload credentials bucket_name filename content content_type w =
     (True, w((bucket_name, filename) \<mapsto> (content, content_type)))"

definition mock_load_job ::
  "nat option \<Rightarrow> unit \<Rightarrow> string \<Rightarrow> string \<times> string \<Rightarrow> load_job_config \<Rightarrow> unit
     \<Rightarrow> nat option \<times> unit" where
  "mock_load_job outcome credentials gcs_uri table_ref job_config w = (outcome, w)"

section \<open>Dictionaries\<close>

lemma map_of_dict_set: "map_of (dict_set k v d) = (map_of d)(k \<mapsto> v)"
  by (induction d) (auto simp: fun_eq_iff)

lemma keys_dict_set:
  "map fst (dict_set k v d) = (if k \<in> fst ` set d then map fst d else map fst d @ [k])"
proof (induction d)
  case Nil
  show ?case by simp
next
  case (Cons a d)
  obtain k' v' where a: "a = (k', v')" by (cases a)
  show ?case
  proof (cases "k = k'")
    case True
    then show ?thesis by (simp add: a)
  next
    case False
    with Cons.IH show ?thesis by (simp add: a)
  qed
qed

lemma keyset_dict_set: "fst ` set (dict_set k v d) = insert k (fst ` set d)"
proof -
  have "set (map fst (dict_set k v d)) = insert k (set (map fst d))"
    unfolding keys_dict_set by auto
  then show ?thesis by simp
qed

lemma distinct_dict_set: "distinct (map fst d) \<Longrightarrow> distinct (map fst (dict_set k v d))"
  by (simp add: keys_dict_set)

lemma dict_set_fresh: "k \<notin> fst ` set d \<Longrightarrow> dict_set k v d = d @ [(k, v)]"
  by (induction d) auto

lemma set_dict_set: "set (dict_set k v d) \<subseteq> insert (k, v) (set d)"
proof (induction d)
  case Nil
  show ?case by simp
next
  case (Cons a d)
  obtain k' v' where a: "a = (k', v')" by (cases a)
  show ?case
  proof (cases "k = k'")
    case True
    then show ?thesis by (auto simp: a)
  next
    case False
    with Cons.IH show ?thesis by (auto simp: a)
  qed
qed

lemma map_of_ins: "map_of (ins acc items) = map_of (rev items @ acc)"
proof (induction items arbitrary: acc)
  case Nil
  show ?case by simp
next
  case (Cons kv items)
  obtain k v where kv: "kv = (k, v)" by (cases kv)
  have "map_of (ins acc (kv # items)) = map_of (rev items @ dict_set k v acc)"
    using Cons.IH [of "dict_set k v acc"] by (simp add: kv)
  also have "\<dots> = map_of (rev items @ (k, v) # acc)"
    by (simp only: map_of_append map_of_dict_set map_of.simps fst_conv snd_conv)
  finally show ?case by (simp add: kv)
qed

lemma distinct_ins: "distinct (map fst acc) \<Longrightarrow> distinct (map fst (ins acc items))"
  by (induction items arbitrary: acc) (auto simp: distinct_dict_set)

lemma keys_ins: "fst ` set (ins acc items) = fst ` set acc \<union> fst ` set items"
proof (induction items arbitrary: acc)
  case Nil
  show ?case by simp
next
  case (Cons kv items)
  obtain k v where kv: "kv = (k, v)" by (cases kv)
  show ?case using Cons.IH [of "dict_set k v acc"] by (simp add: kv keyset_dict_set)
qed

lemma set_ins: "set (ins acc items) \<subseteq> set acc \<union> set items"
proof (induction items arbitrary: acc)
  case Nil
  show ?case by simp
next
  case (Cons kv items)
  obtain k v where kv: "kv = (k, v)" by (cases kv)
  have "set (ins (dict_set k v acc) items) \<subseteq> set (dict_set k v acc) \<union> set items"
    by (rule Cons.IH)
  with set_dict_set [of k v acc] show ?case by (auto simp: kv)
qed

lemma ins_distinct: "distinct (map fst (acc @ items)) \<Longrightarrow> ins acc items = acc @ items"
proof (induction items arbitrary: acc)
  case Nil
  show ?case by simp
next
  case (Cons kv items)
  obtain k v where kv: "kv = (k, v)" by (cases kv)
  from Cons.prems have fresh: "k \<notin> fst ` set acc" by (auto simp: kv)
  from Cons.prems have "distinct (map fst ((acc @ [(k, v)]) @ items))" by (simp add: kv)
  from Cons.IH [OF this] show ?case by (simp add: kv dict_set_fresh [OF fresh])
qed

lemma dict_of_items_distinct: "distinct (map fst items) \<Longrightarrow> dict_of_items items = items"
  using ins_distinct [of "[]" items] by (simp add: dict_of_items_def)

lemma distinct_dict_of_items: "distinct (map fst (dict_of_items items))"
  using distinct_ins [of "[]" items] by (simp add: dict_of_items_def)

lemma set_dict_of_items: "set (dict_of_items items) \<subseteq> set items"
  using set_ins [of "[]" items] by (simp add: dict_of_items_def)

lemma keys_dict_of_items: "fst ` set (dict_of_items items) = fst ` set items"
  using keys_ins [of "[]" items] by (simp add: dict_of_items_def)

lemma map_of_dict_of_items: "map_of (dict_of_items items) = map_of (rev items)"
  using map_of_ins [of "[]" items] by (simp add: dict_of_items_def)

lemma normalize_idem:
  assumes idem: "\<And>k. lower (lower k) = lower k"
  shows "standardize_keys_to_lowercase lower (standardize_keys_to_lowercase lower v)
           = standardize_keys_to_lowercase lower v"
  using idem
proof (induction lower v rule: standardize_keys_to_lowercase.induct)
  case (1 lower kvs)
  let ?n = "standardize_keys_to_lowercase lower"
  let ?f = "\<lambda>(k, v). (lower k, ?n v)"
  let ?r = "dict_of_items (map ?f kvs)"
  have stable: "?f kv = kv" if "kv \<in> set ?r" for kv
  proof -
    from that set_dict_of_items have "kv \<in> set (map ?f kvs)" by blast
    then obtain k v where mem: "(k, v) \<in> set kvs" and kv: "kv = (lower k, ?n v)"
      by auto
    have "?n (?n v) = ?n v"
      using "1.IH" [OF mem refl] "1.prems" by simp
    then show ?thesis by (simp add: kv "1.prems")
  qed
  have "map ?f ?r = ?r"
    by (rule map_idI) (rule stable)
  moreover have "dict_of_items ?r = ?r"
    by (rule dict_of_items_distinct) (rule distinct_dict_of_items)
  ultimately show ?case by simp
next
  case (2 lower xs)
  then show ?case by simp
qed simp_all

lemma lower_char_idem: "lower_char (lower_char c) = lower_char c"
  by (simp add: lower_char_def Let_def)

lemma ascii_lower_idem: "ascii_lower (ascii_lower s) = ascii_lower s"
  by (simp add: ascii_lower_def lower_char_idem)

section \<open>Running the loop\<close>

lemma dict_set_twice: "dict_set k v (dict_set k v' d) = dict_set k v d"
  by (induction d) auto

lemma fetch_loop_unroll:
  "fetch_loop g e p s =
     (case iterations g e p n s of Inl r \<Rightarrow> Some r | Inr s' \<Rightarrow> fetch_loop g e p s')"
proof (induction n arbitrary: s)
  case 0
  show ?case by simp
next
  case (Suc n)
  show ?case
  proof (cases "has_more_pages s")
    case False
    then show ?thesis by (simp add: fetch_loop.simps [of g e p s])
  next
    case True
    show ?thesis
    proof (cases "loop_body g e p s")
      case (Inl r)
      with True show ?thesis by (simp add: fetch_loop.simps [of g e p s])
    next
      case (Inr s')
      with True Suc.IH [of s'] show ?thesis by (simp add: fetch_loop.simps [of g e p s])
    qed
  qed
qed

lemma loop_body_parsed:
  assumes "tracks p q s"
    and "g (length (issued s)) (page_request e q (page s)) = Parsed b"
    and "extend_all_data (page s) (all_data s) b = Inr ds"
    and "more_pages b = Inr c"
  shows "loop_body g e p s =
           Inr \<lparr>all_data = ds, page = (if c then page s + 1 else page s),
                has_more_pages = (c \<and> has_more_pages s),
                heap = (heap s)[p := dict_set ''page'' (JInt (page s)) q],
                issued = issued s @ [page_request e q (page s)]\<rparr>"
  using assms by (cases c) (simp_all add: loop_body_def tracks_def page_request_def Let_def)

lemma loop_body_failed:
  assumes "tracks p q s"
    and "g (length (issued s)) (page_request e q (page s)) = RequestException
         \<or> g (length (issued s)) (page_request e q (page s)) = JSONDecodeError"
  shows "loop_body g e p s =
           Inl \<lparr>returned = Inr None, requests = issued s @ [page_request e q (page s)],
                final_heap = (heap s)[p := dict_set ''page'' (JInt (page s)) q]\<rparr>"
  using assms by (auto simp: loop_body_def tracks_def page_request_def Let_def)

lemma tracks_init: "tracks (length h) (params_copy ps h) (fetch_init ps h)"
  by (simp add: tracks_def fetch_init_def)

lemma run_pages:
  assumes "tracks p q s" and "has_more_pages s"
    and "\<forall>i<length bs. g (length (issued s) + i) (page_request e q (page s + int i)) = Parsed (bs ! i)"
    and "\<forall>i<length bs. more_pages (bs ! i) = Inr True"
    and "collect (page s) (all_data s) bs = Inr acc"
  shows "\<exists>s'. iterations g e p (length bs) s = Inr s' \<and> tracks p q s' \<and> has_more_pages s'
           \<and> all_data s' = acc \<and> page s' = page s + int (length bs)
           \<and> issued s' = issued s @ map (\<lambda>i. page_request e q (page s + int i)) [0..<length bs]"
  using assms
proof (induction bs arbitrary: s)
  case Nil
  then show ?case by simp
next
  case (Cons b bs)
  from Cons.prems(3) have first: "g (length (issued s)) (page_request e q (page s)) = Parsed b"
    by force
  from Cons.prems(4) have more: "more_pages b = Inr True" by force
  from Cons.prems(5) obtain ds where ext: "extend_all_data (page s) (all_data s) b = Inr ds"
    and rest: "collect (page s + 1) ds bs = Inr acc"
    by (auto split: sum.splits)
  let ?s1 = "\<lparr>all_data = ds, page = page s + 1, has_more_pages = True,
               heap = (heap s)[p := dict_set ''page'' (JInt (page s)) q],
               issued = issued s @ [page_request e q (page s)]\<rparr>"
  have body: "loop_body g e p s = Inr ?s1"
    using loop_body_parsed [of p q s g e b ds True] Cons.prems(1,2) first ext more by simp
  have t1: "tracks p q ?s1"
    using Cons.prems(1) by (simp add: tracks_def dict_set_twice)
  have g1: "\<forall>i<length bs. g (length (issued ?s1) + i) (page_request e q (page ?s1 + int i)) = Parsed (bs ! i)"
  proof (intro allI impI)
    fix i assume "i < length bs"
    then have "Suc i < length (b # bs)" by simp
    with Cons.prems(3) have "g (length (issued s) + Suc i) (page_request e q (page s + int (Suc i))) = Parsed ((b # bs) ! Suc i)"
      by blast
    then show "g (length (issued ?s1) + i) (page_request e q (page ?s1 + int i)) = Parsed (bs ! i)"
      by (simp add: add.commute add.left_commute)
  qed
  have m1: "\<forall>i<length bs. more_pages (bs ! i) = Inr True"
    using Cons.prems(4) by force
  have c1: "collect (page ?s1) (all_data ?s1) bs = Inr acc"
    using rest by simp
  from Cons.IH [OF t1 _ g1 m1 c1]
  obtain s' where it: "iterations g e p (length bs) ?s1 = Inr s'" and t': "tracks p q s'"
    and h': "has_more_pages s'" and a': "all_data s' = acc"
    and p': "page s' = page ?s1 + int (length bs)"
    and i': "issued s' = issued ?s1 @ map (\<lambda>i. page_request e q (page ?s1 + int i)) [0..<length bs]"
    by auto
  have shift: "map (\<lambda>i. page_request e q (page s + int i)) [0..<Suc (length bs)]
     = page_request e q (page s) # map (\<lambda>i. page_request e q (page s + 1 + int i)) [0..<length bs]"
    by (simp add: upt_conv_Cons map_Suc_upt [symmetric] add.assoc del: upt_Suc)
  have "iterations g e p (length (b # bs)) s = Inr s'"
    using it body Cons.prems(2) by simp
  moreover have "page s' = page s + int (length (b # bs))" using p' by simp
  moreover have "issued s' = issued s @ map (\<lambda>i. page_request e q (page s + int i)) [0..<length (b # bs)]"
    using i' shift by simp
  ultimately show ?case using t' h' a' by blast
qed

lemma collect_append:
  "collect pg acc (xs @ ys) =
     (case collect pg acc xs of
        Inl e \<Rightarrow> Inl e
      | Inr a \<Rightarrow> collect (pg + int (length xs)) a ys)"
proof (induction xs arbitrary: pg acc)
  case Nil
  show ?case by simp
next
  case (Cons x xs)
  show ?case
  proof (cases "extend_all_data pg acc x")
    case (Inl e)
    then show ?thesis by simp
  next
    case (Inr a)
    have eq: "pg + int (length (x # xs)) = pg + 1 + int (length xs)" by simp
    show ?thesis unfolding eq using Inr Cons.IH [of "pg + 1" a] by simp
  qed
qed

lemma fetch_loop_last_page:
  assumes t: "tracks p q s" and more: "has_more_pages s"
    and resp: "g (length (issued s)) (page_request e q (page s)) = Parsed b"
    and ext: "extend_all_data (page s) (all_data s) b = Inr ds"
    and stop: "more_pages b = Inr False"
  shows "\<exists>r. fetch_loop g e p s = Some r \<and> returned r = Inr (Some ds)
           \<and> requests r = issued s @ [page_request e q (page s)]"
proof -
  let ?s1 = "\<lparr>all_data = ds, page = page s, has_more_pages = False,
               heap = (heap s)[p := dict_set ''page'' (JInt (page s)) q],
               issued = issued s @ [page_request e q (page s)]\<rparr>"
  have body: "loop_body g e p s = Inr ?s1"
    using loop_body_parsed [of p q s g e b ds False] t resp ext stop by simp
  have "fetch_loop g e p ?s1 = Some (leave_loop ?s1)"
    by (simp add: fetch_loop.simps [of g e p ?s1])
  with body more have "fetch_loop g e p s = Some (leave_loop ?s1)"
    by (simp add: fetch_loop.simps [of g e p s])
  then show ?thesis by (simp add: leave_loop_def)
qed

lemma fetch_loop_failed_page:
  assumes t: "tracks p q s" and more: "has_more_pages s"
    and resp: "g (length (issued s)) (page_request e q (page s)) = RequestException
         \<or> g (length (issued s)) (page_request e q (page s)) = JSONDecodeError"
  shows "\<exists>r. fetch_loop g e p s = Some r \<and> returned r = Inr None
           \<and> requests r = issued s @ [page_request e q (page s)]"
proof -
  note body = loop_body_failed [of p q s g e, OF t resp]
  with more show ?thesis
    by (simp add: fetch_loop.simps [of g e p s])
qed

lemma fetch_init_simps:
  "all_data (fetch_init ps h) = []" "page (fetch_init ps h) = 1"
  "has_more_pages (fetch_init ps h)" "issued (fetch_init ps h) = []"
  by (simp_all add: fetch_init_def)

lemma fetch_pages:
  assumes ne: "bs \<noteq> []"
    and resp: "\<forall>i<length bs. g i (page_request e (params_copy ps h) (int i + 1)) = Parsed (bs ! i)"
    and cont: "\<forall>i<length bs - 1. more_pages (bs ! i) = Inr True"
    and stop: "more_pages (last bs) = Inr False"
    and coll: "collect 1 [] bs = Inr acc"
  shows "\<exists>r. fetch_nba_data g e ps h = Some r \<and> returned r = Inr (Some acc)
           \<and> requests r = map (\<lambda>i. page_request e (params_copy ps h) (int i + 1)) [0..<length bs]"
proof -
  let ?q = "params_copy ps h" and ?p = "length h" and ?s0 = "fetch_init ps h"
  from ne obtain front b where bs: "bs = front @ [b]"
    by (metis append_butlast_last_id)
  let ?k = "length front"
  from coll obtain mid where cfront: "collect 1 [] front = Inr mid"
    and clast: "extend_all_data (1 + int ?k) mid b = Inr acc"
    by (auto simp: bs collect_append split: sum.splits)
  have r0: "\<forall>i<?k. g (length (issued ?s0) + i) (page_request e ?q (page ?s0 + int i)) = Parsed (front ! i)"
  proof (intro allI impI)
    fix i assume i: "i < ?k"
    then have "g i (page_request e ?q (int i + 1)) = Parsed (bs ! i)"
      using resp by (simp add: bs)
    with i show "g (length (issued ?s0) + i) (page_request e ?q (page ?s0 + int i)) = Parsed (front ! i)"
      by (simp add: bs fetch_init_simps nth_append add.commute)
  qed
  have m0: "\<forall>i<?k. more_pages (front ! i) = Inr True"
    using cont by (simp add: bs nth_append)
  have c0: "collect (page ?s0) (all_data ?s0) front = Inr mid"
    using cfront by (simp add: fetch_init_simps)
  from run_pages [OF tracks_init _ r0 m0 c0]
  obtain s' where it: "iterations g e ?p ?k ?s0 = Inr s'" and t': "tracks ?p ?q s'"
    and h': "has_more_pages s'" and a': "all_data s' = mid"
    and p': "page s' = 1 + int ?k"
    and i': "issued s' = map (\<lambda>i. page_request e ?q (1 + int i)) [0..<?k]"
    by (auto simp: fetch_init_simps)
  have resp': "g (length (issued s')) (page_request e ?q (page s')) = Parsed b"
    using resp [rule_format, of ?k] by (simp add: bs i' p' add.commute)
  have ext': "extend_all_data (page s') (all_data s') b = Inr acc"
    using clast by (simp add: a' p')
  have stop': "more_pages b = Inr False"
    using stop by (simp add: bs)
  from fetch_loop_last_page [of ?p ?q s' g e b acc, OF t' h' resp' ext' stop']
  obtain r where r: "fetch_loop g e ?p s' = Some r" and ret: "returned r = Inr (Some acc)"
    and reqs: "requests r = issued s' @ [page_request e ?q (page s')]"
    by blast
  have "fetch_nba_data g e ps h = Some r"
    using fetch_loop_unroll [of g e ?p ?s0 ?k] it r by (simp add: fetch_nba_data_def)
  moreover have "requests r = map (\<lambda>i. page_request e ?q (int i + 1)) [0..<length bs]"
    using reqs by (simp add: i' p' bs add.commute)
  ultimately show ?thesis using ret by blast
qed

lemma fetch_fails:
  assumes resp: "\<forall>i<length bs. g i (page_request e (params_copy ps h) (int i + 1)) = Parsed (bs ! i)"
    and cont: "\<forall>i<length bs. more_pages (bs ! i) = Inr True"
    and coll: "collect 1 [] bs = Inr acc"
    and fail: "g (length bs) (page_request e (params_copy ps h) (int (length bs) + 1)) = RequestException
       \<or> g (length bs) (page_request e (params_copy ps h) (int (length bs) + 1)) = JSONDecodeError"
  shows "\<exists>r. fetch_nba_data g e ps h = Some r \<and> returned r = Inr None
           \<and> requests r = map (\<lambda>i. page_request e (params_copy ps h) (int i + 1)) [0..<length bs + 1]"
proof -
  let ?q = "params_copy ps h" and ?p = "length h" and ?s0 = "fetch_init ps h"
  let ?k = "length bs"
  have r0: "\<forall>i<?k. g (length (issued ?s0) + i) (page_request e ?q (page ?s0 + int i)) = Parsed (bs ! i)"
    using resp by (simp add: fetch_init_simps add.commute)
  have c0: "collect (page ?s0) (all_data ?s0) bs = Inr acc"
    using coll by (simp add: fetch_init_simps)
  from run_pages [OF tracks_init _ r0 cont c0]
  obtain s' where it: "iterations g e ?p ?k ?s0 = Inr s'" and t': "tracks ?p ?q s'"
    and h': "has_more_pages s'"
    and p': "page s' = 1 + int ?k"
    and i': "issued s' = map (\<lambda>i. page_request e ?q (1 + int i)) [0..<?k]"
    by (auto simp: fetch_init_simps)
  have fail': "g (length (issued s')) (page_request e ?q (page s')) = RequestException
       \<or> g (length (issued s')) (page_request e ?q (page s')) = JSONDecodeError"
    using fail by (simp add: i' p' add.commute)
  from fetch_loop_failed_page [of ?p ?q s' g e, OF t' h' fail']
  obtain r where r: "fetch_loop g e ?p s' = Some r" and ret: "returned r = Inr None"
    and reqs: "requests r = issued s' @ [page_request e ?q (page s')]"
    by blast
  have "fetch_nba_data g e ps h = Some r"
    using fetch_loop_unroll [of g e ?p ?s0 ?k] it r by (simp add: fetch_nba_data_def)
  moreover have "requests r = map (\<lambda>i. page_request e ?q (int i + 1)) [0..<?k + 1]"
    using reqs by (simp add: i' p' add.commute)
  ultimately show ?thesis using ret by blast
qed

section \<open>The key normalizer\<close>

text \<open>
  Claim C4. \<^verbatim>\<open>standardize_keys_to_lowercase\<close> is total and idempotent: on every nested
  value built from mappings, sequences and scalars, applying it twice gives the same
  result as applying it once. The function is defined on every value of the datatype;
  the only fact about \<^verbatim>\<open>str.lower\<close> that idempotence needs is that lowering a lowered
  key changes nothing.
\<close>

theorem standardize_keys_idempotent:
  assumes "\<forall>k. lower (lower k) = lower k"
  shows "standardize_keys_to_lowercase lower (standardize_keys_to_lowercase lower v)
           = standardize_keys_to_lowercase lower v"
  using assms by (intro normalize_idem) simp

theorem standardize_keys_idempotent_witness:
  "(\<forall>k. ascii_lower (ascii_lower k) = ascii_lower k) \<and>
   standardize_keys_to_lowercase ascii_lower
     (standardize_keys_to_lowercase ascii_lower
        (JDict [(''Player'', JStr ''LeBron''),
                (''SHOTS'', JList [JDict [(''X'', JInt 3), (''x'', JFloat (5 / 2))], JNull]),
                (''player'', JBool True)]))
   = JDict [(''player'', JBool True),
            (''shots'', JList [JDict [(''x'', JFloat (5 / 2))], JNull])]"
proof -
  let ?v = "JDict [(''Player'', JStr ''LeBron''),
                (''SHOTS'', JList [JDict [(''X'', JInt 3), (''x'', JFloat (5 / 2))], JNull]),
                (''player'', JBool True)]"
  have idem: "\<forall>k. ascii_lower (ascii_lower k) = ascii_lower k"
    by (simp add: ascii_lower_idem)
  have once: "standardize_keys_to_lowercase ascii_lower ?v
      = JDict [(''player'', JBool True),
            (''shots'', JList [JDict [(''x'', JFloat (5 / 2))], JNull])]"
    by code_simp
  have twice: "standardize_keys_to_lowercase ascii_lower
      (standardize_keys_to_lowercase ascii_lower ?v)
      = standardize_keys_to_lowercase ascii_lower ?v"
    using standardize_keys_idempotent [OF idem] .
  from idem twice [unfolded once [symmetric]] once show ?thesis
    by (simp only: simp_thms)
qed

text \<open>
  Claim C7. On a mapping, every key is lowercased, and when several keys collapse to the
  same lowercased key the value of the one processed last, in insertion order, is kept:
  for an item \<open>(k, v)\<close> of the mapping that no later item collides with, the result
  holds the normalized \<open>v\<close> under \<open>lower k\<close>. The result has each lowercased key once.
  In particular \<^verbatim>\<open>{"A": 1, "a": 2}\<close> becomes \<^verbatim>\<open>{"a": 2}\<close>.
\<close>

theorem standardize_keys_last_wins:
  assumes "kvs = pre @ (k, v) # post"
    and "lower k \<notin> lower ` fst ` set post"
  shows "\<exists>r. standardize_keys_to_lowercase lower (JDict kvs) = JDict r
           \<and> distinct (map fst r)
           \<and> fst ` set r = lower ` fst ` set kvs
           \<and> dict_get r (lower k) = Some (standardize_keys_to_lowercase lower v)"
proof -
  let ?f = "\<lambda>(k, v). (lower k, standardize_keys_to_lowercase lower v)"
  let ?r = "dict_of_items (map ?f kvs)"
  have keys: "fst ` set (map ?f xs) = lower ` fst ` set xs" for xs
    by (force simp: image_iff)
  have "map_of (rev (map ?f post)) (lower k) = None"
    using assms(2) keys [of post] by (simp add: map_of_eq_None_iff)
  then have "map_of (rev (map ?f kvs)) (lower k) = Some (standardize_keys_to_lowercase lower v)"
    by (simp add: assms(1) map_of_append map_add_def)
  then have "dict_get ?r (lower k) = Some (standardize_keys_to_lowercase lower v)"
    by (simp add: dict_get_def map_of_dict_of_items)
  moreover have "fst ` set ?r = lower ` fst ` set kvs"
    using keys [of kvs] by (simp only: keys_dict_of_items)
  ultimately show ?thesis
    using distinct_dict_of_items [of "map ?f kvs"] by simp
qed

theorem standardize_keys_last_wins_witness:
  "[(''A'', JInt 1), (''a'', JInt 2)] = [(''A'', JInt 1)] @ (''a'', JInt 2) # []
   \<and> ascii_lower ''a'' \<notin> ascii_lower ` fst ` set []
   \<and> (\<exists>r. standardize_keys_to_lowercase ascii_lower (JDict [(''A'', JInt 1), (''a'', JInt 2)])
             = JDict r
          \<and> distinct (map fst r)
          \<and> fst ` set r = ascii_lower ` fst ` set [(''A'', JInt 1), (''a'', JInt 2)]
          \<and> dict_get r (ascii_lower ''a'') = Some (JInt 2))
   \<and> standardize_keys_to_lowercase ascii_lower (JDict [(''A'', JInt 1), (''a'', JInt 2)])
        = JDict [(''a'', JInt 2)]"
proof -
  have split: "[(''A'', JInt 1), (''a'', JInt 2)] = [(''A'', JInt 1)] @ (''a'', JInt 2) # []"
    by simp
  have fresh: "ascii_lower ''a'' \<notin> ascii_lower ` fst ` set []"
    by simp
  have whole: "standardize_keys_to_lowercase ascii_lower (JDict [(''A'', JInt 1), (''a'', JInt 2)])
        = JDict [(''a'', JInt 2)]"
    by code_simp
  have lower_a: "ascii_lower ''a'' = ''a''"
    by code_simp
  have norm2: "standardize_keys_to_lowercase ascii_lower (JInt 2) = JInt 2"
    by simp
  note main = standardize_keys_last_wins [OF split fresh, unfolded norm2]
  from split fresh main whole show ?thesis
    by (intro conjI)
qed

section \<open>The stager and the loader\<close>

lemma py_join_Cons: "py_join sep (x # xs) = x @ concat (map (\<lambda>y. sep @ y) xs)"
  by (induction xs arbitrary: x) auto

text \<open>
  Claim C8. \<^verbatim>\<open>upload_to_gcs\<close> serializes a list as the JSON encoding of its first
  element followed, for each further element, by one newline character and that
  element's encoding, with nothing after the last one (the empty list gives the empty
  string); any other value is serialized as its JSON encoding alone. That string, with
  the content type \<^verbatim>\<open>application/json\<close>, is what the single call of the object store
  receives, and what an object store held in memory has under the bucket and object
  name afterwards.
\<close>

theorem upload_to_gcs_content:
  "upload_to_gcs upload_from_string dumps credentials data bucket_name filename w =
     (let (stored, w') =
            upload_from_string credentials bucket_name filename (ndjson_content dumps data)
              ''application/json'' w
      in (if stored then Some (''gs://'' @ bucket_name @ ''/'' @ filename) else None, w'))
   \<and> upload_to_gcs memory_upload dumps () data bucket_name filename objects =
       (Some (''gs://'' @ bucket_name @ ''/'' @ filename),
        objects((bucket_name, filename) \<mapsto> (ndjson_content dumps data, ''application/json'')))"
proof -
  have content: "(if is_list data then py_join [CHR 0x0A] (map dumps (list_items data))
                  else dumps data) = ndjson_content dumps data"
  proof (cases data)
    case (JList rs)
    then show ?thesis
      by (cases rs) (simp_all add: ndjson_content_def py_join_Cons comp_def)
  qed (simp_all add: ndjson_content_def)
  obtain stored w' where
    call: "upload_from_string credentials bucket_name filename (ndjson_content dumps data)
             ''application/json'' w = (stored, w')"
    by (cases "upload_from_string credentials bucket_name filename (ndjson_content dumps data)
                 ''application/json'' w")
  have general: "upload_to_gcs upload_from_string dumps credentials data bucket_name filename w =
     (let (stored, w') =
            upload_from_string credentials bucket_name filename (ndjson_content dumps data)
              ''application/json'' w
      in (if stored then Some (''gs://'' @ bucket_name @ ''/'' @ filename) else None, w'))"
    unfolding upload_to_gcs_def content Let_def call by (cases stored) simp_all
  have memory: "upload_to_gcs memory_upload dumps () data bucket_name filename objects =
       (Some (''gs://'' @ bucket_name @ ''/'' @ filename),
        objects((bucket_name, filename) \<mapsto> (ndjson_content dumps data, ''application/json'')))"
    unfolding upload_to_gcs_def content Let_def by (simp add: memory_upload_def)
  from general memory show ?thesis by (rule conjI)
qed

text \<open>
  Claim C5, as the code has it. \<^verbatim>\<open>load_json_to_bigquery\<close> submits one load job
  (newline-delimited JSON, schema autodetected, write-truncate) and returns the Python
  value \<^verbatim>\<open>True\<close> when the job completes and \<^verbatim>\<open>False\<close> when it fails; the number of
  rows written is printed, never returned.
\<close>

theorem load_json_to_bigquery_flag:
  "load_json_to_bigquery load_table_from_uri credentials gcs_uri dataset_id table_id w =
     (let (outcome, w') =
            load_table_from_uri credentials gcs_uri (dataset_id, table_id)
              \<lparr>source_format = ''NEWLINE_DELIMITED_JSON'', autodetect = True,
               write_disposition = ''WRITE_TRUNCATE''\<rparr> w
      in (JBool (outcome \<noteq> None), w'))"
  by (auto simp: load_json_to_bigquery_def Let_def split: prod.splits option.splits)

text \<open>
  A completed job that wrote two rows: the function returns \<^verbatim>\<open>True\<close>, which is not the
  row count 2, neither as a value nor under Python's \<^verbatim>\<open>==\<close>.
\<close>

theorem load_json_to_bigquery_not_row_count:
  "fst (load_json_to_bigquery (mock_load_job (Some 2)) () ''gs://bucket/games.json''
          ''nba_raw_data'' ''api_games_raw'' ()) = JBool True
   \<and> fst (load_json_to_bigquery (mock_load_job (Some 2)) () ''gs://bucket/games.json''
          ''nba_raw_data'' ''api_games_raw'' ()) \<noteq> JInt 2
   \<and> \<not> py_eq (fst (load_json_to_bigquery (mock_load_job (Some 2)) () ''gs://bucket/games.json''
          ''nba_raw_data'' ''api_games_raw'' ())) (JInt 2)"
  by (simp add: load_json_to_bigquery_def mock_load_job_def)

section \<open>The source client\<close>

lemma key_is_dict:
  "key_is k P (JDict d) = Inr (case dict_get d k of None \<Rightarrow> False | Some v \<Rightarrow> P v)"
proof (cases "dict_get d k")
  case None
  then have "k \<notin> fst ` set d" by (simp add: dict_get_def map_of_eq_None_iff)
  with None show ?thesis by (simp add: key_is_def)
next
  case (Some v)
  then have "k \<in> fst ` set d"
    by (metis dict_get_def map_of_eq_None_iff option.distinct(1))
  with Some show ?thesis by (simp add: key_is_def)
qed

lemma is_pageD:
  assumes "is_page b i n recs"
  obtains d p where "b = JDict d" and "dict_get d ''data'' = Some (JList recs)"
    and "dict_get d ''pagination'' = Some (JDict p)"
    and "dict_get p ''page'' = Some (JInt i)" and "dict_get p ''pages'' = Some (JInt n)"
proof (cases b)
  case (JDict d)
  with assms have data: "dict_get d ''data'' = Some (JList recs)"
    by (simp add: is_page_def)
  show ?thesis
  proof (cases "dict_get d ''pagination''")
    case None
    with assms JDict show ?thesis by (simp add: is_page_def)
  next
    case (Some pv)
    show ?thesis
    proof (cases pv)
      case (JDict p)
      with assms \<open>b = JDict d\<close> Some data that show ?thesis
        by (simp add: is_page_def)
    qed (use assms \<open>b = JDict d\<close> Some in \<open>simp_all add: is_page_def\<close>)
  qed
qed (use assms in \<open>simp_all add: is_page_def\<close>)

lemma is_page_extend:
  assumes "is_page b i n recs"
  shows "extend_all_data pg acc b = Inr (acc @ recs)"
proof -
  from assms obtain d where b: "b = JDict d" and data: "dict_get d ''data'' = Some (JList recs)"
    by (rule is_pageD)
  show ?thesis by (simp add: extend_all_data_def b key_is_dict data)
qed

lemma is_page_more:
  assumes "is_page b i n recs"
  shows "more_pages b = Inr (i < n)"
proof -
  from assms obtain d p where b: "b = JDict d"
    and pag: "dict_get d ''pagination'' = Some (JDict p)"
    and cur: "dict_get p ''page'' = Some (JInt i)"
    and tot: "dict_get p ''pages'' = Some (JInt n)"
    by (rule is_pageD)
  show ?thesis by (simp add: more_pages_def b key_is_dict pag cur tot)
qed

lemma collect_pages:
  assumes "length recs = length bs"
    and "\<forall>i<length bs. is_page (bs ! i) (f i) n (recs ! i)"
  shows "collect pg acc bs = Inr (acc @ concat recs)"
  using assms
proof (induction bs arbitrary: recs pg acc f)
  case Nil
  then show ?case by simp
next
  case (Cons b bs)
  from Cons.prems(1) obtain r rs where recs: "recs = r # rs" and len: "length rs = length bs"
    by (cases recs) auto
  from Cons.prems(2) have "is_page b (f 0) n r" by (force simp: recs)
  then have first: "extend_all_data pg acc b = Inr (acc @ r)" by (rule is_page_extend)
  have "\<forall>i<length bs. is_page (bs ! i) ((f \<circ> Suc) i) n (rs ! i)"
    using Cons.prems(2) by (force simp: recs)
  from Cons.IH [OF len this] first show ?case by (simp add: recs)
qed

text \<open>
  Claim C1. Let the network answer the first \<open>N\<close> requests, \<open>N \<ge> 1\<close>, with parsed
  bodies, the one for page \<open>i\<close> carrying a \<^verbatim>\<open>data\<close> list and the pagination metadata
  \<^verbatim>\<open>{page: i, pages: N}\<close>. Then \<^verbatim>\<open>fetch_nba_data\<close> returns, having issued exactly the
  \<open>N\<close> requests for the pages 1 to \<open>N\<close> in this order (the caller's parameters with
  \<^verbatim>\<open>page\<close> set), and its value is the concatenation of the \<^verbatim>\<open>data\<close> lists in page
  order, each in its own order.
\<close>

theorem fetch_nba_data_pagination:
  fixes N :: nat
  assumes "0 < N" and "length bodies = N" and "length records = N"
    and "\<forall>i<N. http_get i (page_request endpoint (params_copy params h) (int i + 1))
                  = Parsed (bodies ! i)"
    and "\<forall>i<N. is_page (bodies ! i) (int i + 1) (int N) (records ! i)"
  shows "\<exists>r. fetch_nba_data http_get endpoint params h = Some r
           \<and> returned r = Inr (Some (concat records))
           \<and> requests r =
               map (\<lambda>i. page_request endpoint (params_copy params h) (int i + 1)) [0..<N]"
proof -
  have ne: "bodies \<noteq> []" using assms(1,2) by auto
  have resp: "\<forall>i<length bodies.
      http_get i (page_request endpoint (params_copy params h) (int i + 1)) = Parsed (bodies ! i)"
    using assms(2,4) by simp
  have cont: "\<forall>i<length bodies - 1. more_pages (bodies ! i) = Inr True"
  proof (intro allI impI)
    fix i assume "i < length bodies - 1"
    then have i: "i < N" and lt: "int i + 1 < int N" using assms(2) by auto
    from assms(5) i have "is_page (bodies ! i) (int i + 1) (int N) (records ! i)" by blast
    from is_page_more [OF this] lt show "more_pages (bodies ! i) = Inr True" by simp
  qed
  have stop: "more_pages (last bodies) = Inr False"
  proof -
    have l: "last bodies = bodies ! (N - 1)" using ne assms(2) by (simp add: last_conv_nth)
    have "N - 1 < N" using assms(1) by simp
    with assms(5) have "is_page (bodies ! (N - 1)) (int (N - 1) + 1) (int N) (records ! (N - 1))"
      by blast
    from is_page_more [OF this] assms(1) show ?thesis by (simp add: l)
  qed
  have coll: "collect 1 [] bodies = Inr (concat records)"
    using collect_pages [of records bodies "\<lambda>i. int i + 1" "int N" 1 "[]"] assms(2,3,5) by simp
  from fetch_pages [of bodies http_get endpoint params h "concat records"] ne resp cont stop coll
    assms(2)
  show ?thesis by simp
qed

theorem fetch_nba_data_pagination_witness:
  "\<exists>r. fetch_nba_data
         (mock_server
            [Parsed (JDict [(''data'', JList [JDict [(''ID'', JInt 1)]]),
                            (''pagination'', JDict [(''page'', JInt 1), (''pages'', JInt 2)])]),
             Parsed (JDict [(''data'', JList [JDict [(''ID'', JInt 2)]]),
                            (''pagination'', JDict [(''page'', JInt 2), (''pages'', JInt 2)])])]
            RequestException)
         ''/api/games'' None [] = Some r
      \<and> returned r = Inr (Some [JDict [(''ID'', JInt 1)], JDict [(''ID'', JInt 2)]])
      \<and> requests r = [page_request ''/api/games'' [] 1, page_request ''/api/games'' [] 2]"
proof -
  let ?b1 = "JDict [(''data'', JList [JDict [(''ID'', JInt 1)]]),
                    (''pagination'', JDict [(''page'', JInt 1), (''pages'', JInt 2)])]"
  let ?b2 = "JDict [(''data'', JList [JDict [(''ID'', JInt 2)]]),
                    (''pagination'', JDict [(''page'', JInt 2), (''pages'', JInt 2)])]"
  let ?g = "mock_server [Parsed ?b1, Parsed ?b2] RequestException"
  let ?recs = "[[JDict [(''ID'', JInt 1)]], [JDict [(''ID'', JInt 2)]]]"
  have two: "(\<forall>i<2. P i) \<longleftrightarrow> P 0 \<and> P (Suc 0)" for P :: "nat \<Rightarrow> bool"
    by (auto simp: numeral_2_eq_2 less_Suc_eq)
  have resp: "\<forall>i<2. ?g i (page_request ''/api/games'' (params_copy None []) (int i + 1))
                 = Parsed ([?b1, ?b2] ! i)"
    by (simp add: two mock_server_def)
  have pages: "\<forall>i<2. is_page ([?b1, ?b2] ! i) (int i + 1) (int 2) (?recs ! i)"
    by (simp add: two is_page_def dict_get_def)
  have upt2: "[0..<2] = [0, Suc 0]"
    by (simp add: numeral_2_eq_2)
  from fetch_nba_data_pagination [of 2 "[?b1, ?b2]" ?recs ?g "''/api/games''" None "[]"]
    resp pages
  show ?thesis by (simp add: upt2 params_copy_def)
qed

text \<open>
  Claim C2. Let the first \<open>k\<close> requests, \<open>k \<ge> 0\<close>, be answered by parsed bodies that
  are gathered and ask for a further page, and let the next request fail in transport or
  fail to parse. Then \<^verbatim>\<open>fetch_nba_data\<close> returns \<^verbatim>\<open>None\<close>, whatever records it had
  gathered, and the failed request is the last one it issued: it is not sent again and
  the loop is not continued. The witness is a failure on page 2 after a good page 1.
\<close>

theorem fetch_nba_data_failure:
  assumes "\<forall>i<length bodies.
             http_get i (page_request endpoint (params_copy params h) (int i + 1))
               = Parsed (bodies ! i)"
    and "\<forall>i<length bodies. more_pages (bodies ! i) = Inr True"
    and "collect 1 [] bodies = Inr acc"
    and "http_get (length bodies)
             (page_request endpoint (params_copy params h) (int (length bodies) + 1))
           = RequestException
       \<or> http_get (length bodies)
             (page_request endpoint (params_copy params h) (int (length bodies) + 1))
           = JSONDecodeError"
  shows "\<exists>r. fetch_nba_data http_get endpoint params h = Some r
           \<and> returned r = Inr None
           \<and> requests r =
               map (\<lambda>i. page_request endpoint (params_copy params h) (int i + 1))
                 [0..<length bodies + 1]"
  using fetch_fails [of bodies http_get endpoint params h acc] assms by simp

theorem fetch_nba_data_failure_witness:
  "\<exists>r. fetch_nba_data
         (mock_server
            [Parsed (JDict [(''data'', JList [JDict [(''ID'', JInt 1)]]),
                            (''pagination'', JDict [(''page'', JInt 1), (''pages'', JInt 2)])])]
            RequestException)
         ''/api/games'' None [] = Some r
      \<and> returned r = Inr None
      \<and> requests r = [page_request ''/api/games'' [] 1, page_request ''/api/games'' [] 2]"
proof -
  let ?b1 = "JDict [(''data'', JList [JDict [(''ID'', JInt 1)]]),
                    (''pagination'', JDict [(''page'', JInt 1), (''pages'', JInt 2)])]"
  let ?g = "mock_server [Parsed ?b1] RequestException"
  have resp: "\<forall>i<length [?b1]. ?g i (page_request ''/api/games'' (params_copy None []) (int i + 1))
                 = Parsed ([?b1] ! i)"
    by (simp add: mock_server_def)
  have cont: "\<forall>i<length [?b1]. more_pages ([?b1] ! i) = Inr True"
    by (simp add: more_pages_def key_is_def dict_get_def)
  have coll: "collect 1 [] [?b1] = Inr [JDict [(''ID'', JInt 1)]]"
    by (simp add: extend_all_data_def key_is_def dict_get_def)
  have fail: "?g (length [?b1])
             (page_request ''/api/games'' (params_copy None []) (int (length [?b1]) + 1))
           = RequestException
       \<or> ?g (length [?b1])
             (page_request ''/api/games'' (params_copy None []) (int (length [?b1]) + 1))
           = JSONDecodeError"
    by (simp add: mock_server_def)
  have upt2: "[0..<Suc (Suc 0)] = [0, Suc 0]"
    by simp
  from fetch_nba_data_failure [of "[?b1]" ?g "''/api/games''" None "[]", OF resp cont coll fail]
  show ?thesis by (simp add: upt2 params_copy_def)
qed

subsection \<open>The shape of a body\<close>

text \<open>
  Claim C3, as the code has it. A parsed body that is a mapping without a \<^verbatim>\<open>data\<close> list,
  or a string that does not contain \<^verbatim>\<open>data\<close>, is appended whole, as one record, exactly
  when the page counter is 1 and no record has been gathered; on a later page, or with a
  record already gathered, it adds nothing.
\<close>

theorem extend_all_data_bare_object:
  assumes "(\<exists>d. body = JDict d \<and> (\<forall>xs. dict_get d ''data'' \<noteq> Some (JList xs)))
         \<or> (\<exists>s. body = JStr s \<and> \<not> sublist ''data'' s)"
  shows "extend_all_data pg acc body = Inr (if pg = 1 \<and> acc = [] then [body] else acc)"
  using assms
proof (elim disjE exE conjE)
  fix d
  assume body: "body = JDict d" and nolist: "\<forall>xs. dict_get d ''data'' \<noteq> Some (JList xs)"
  have "key_is ''data'' is_list body = Inr False"
  proof (cases "dict_get d ''data''")
    case None
    then show ?thesis by (simp add: body key_is_dict)
  next
    case (Some v)
    with nolist have "\<not> is_list v" by (cases v) simp_all
    with Some show ?thesis by (simp add: body key_is_dict)
  qed
  then show ?thesis by (simp add: extend_all_data_def body)
next
  fix s
  assume body: "body = JStr s" and "\<not> sublist ''data'' s"
  then have "key_is ''data'' is_list body = Inr False" by (simp add: key_is_def)
  then show ?thesis by (simp add: extend_all_data_def body)
qed

theorem extend_all_data_bare_object_witness:
  "extend_all_data 1 [] (JDict [(''x'', JInt 1)]) = Inr [JDict [(''x'', JInt 1)]]
   \<and> extend_all_data 2 [JInt 7] (JDict [(''x'', JInt 1)]) = Inr [JInt 7]
   \<and> extend_all_data 2 [] (JDict [(''x'', JInt 1)]) = Inr []"
proof -
  have shape: "(\<exists>d. JDict [(''x'', JInt 1)] = JDict d \<and> (\<forall>xs. dict_get d ''data'' \<noteq> Some (JList xs)))
         \<or> (\<exists>s. JDict [(''x'', JInt 1)] = JStr s \<and> \<not> sublist ''data'' s)"
    by (simp add: dict_get_def)
  from extend_all_data_bare_object [OF shape, of 1 "[]"]
    extend_all_data_bare_object [OF shape, of 2 "[JInt 7]"]
    extend_all_data_bare_object [OF shape, of 2 "[]"]
  show ?thesis by simp
qed

text \<open>
  The body \<^verbatim>\<open>null\<close> has no \<^verbatim>\<open>data\<close> list and is not a list, yet on page 1 with no
  record gathered it is not appended: the test \<^verbatim>\<open>'data' in json_response\<close> raises
  \<^verbatim>\<open>TypeError\<close>. Booleans and numbers behave the same way.
\<close>

theorem extend_all_data_null_body:
  "extend_all_data 1 [] JNull = Inl TypeError"
  by (simp add: extend_all_data_def key_is_def)

subsection \<open>The pagination metadata\<close>

lemma py_eq_refl_aux:
  "(v = w \<longrightarrow> wf_json v \<longrightarrow> py_eq v w)"
  "(xs = ys \<longrightarrow> (\<forall>x \<in> set xs. wf_json x) \<longrightarrow> py_eq_list xs ys)"
  "((\<forall>(k, v) \<in> set a. map_of b k = Some v \<and> wf_json v) \<longrightarrow> py_eq_items a b)"
proof (induction v w and xs ys and a b rule: py_eq_py_eq_list_py_eq_items.induct)
  case (2 a w)
  show ?case
  proof (intro impI)
    assume eq: "JDict a = w" and wf: "wf_json (JDict a)"
    have "\<forall>(k, v) \<in> set a. map_of a k = Some v \<and> wf_json v"
      using wf by auto
    with 2 [of a] eq show "py_eq (JDict a) w" by auto
  qed
qed (auto split: json.splits)

lemma py_eq_refl: "wf_json v \<Longrightarrow> py_eq v v"
  using py_eq_refl_aux(1) [of v v] by simp

lemma str_lt_irrefl: "\<not> str_lt s s"
  by (induction s) simp_all

lemma py_lt_list_refl: "\<forall>x \<in> set xs. wf_json x \<Longrightarrow> py_lt_list xs xs = Inr False"
  by (induction xs) (simp_all add: py_eq_refl)

lemma py_lt_refl:
  assumes "wf_json v" and "v \<noteq> JNull" and "\<not> is_dict v"
  shows "py_lt v v = Inr False"
  using assms by (cases v) (simp_all add: py_lt_list_refl str_lt_irrefl)

lemma more_pages_dict:
  assumes "dict_get d ''pagination'' = Some (JDict p)"
  shows "more_pages (JDict d) =
           (let current = (case dict_get p ''page'' of None \<Rightarrow> JInt 1 | Some v \<Rightarrow> v);
                total = (case dict_get p ''pages'' of None \<Rightarrow> current | Some v \<Rightarrow> v)
            in py_lt current total)"
  using assms by (simp add: more_pages_def key_is_dict Let_def split: option.splits)

text \<open>
  Claim C10, as the code has it. Let the body hold a mapping under \<^verbatim>\<open>pagination\<close>. If it
  has no \<^verbatim>\<open>pages\<close>, and its \<^verbatim>\<open>page\<close> is absent or any value but \<^verbatim>\<open>null\<close> or a
  mapping, the total defaults to the current page, the test \<^verbatim>\<open>current < total\<close> is
  false, and the page is the last one. If it has no \<^verbatim>\<open>page\<close>, the current page
  defaults to 1, so that a number above 1 under \<^verbatim>\<open>pages\<close> makes the loop go on.
\<close>

theorem more_pages_defaults:
  assumes "dict_get d ''pagination'' = Some (JDict p)"
  shows "(dict_get p ''pages'' = None \<longrightarrow>
            (\<forall>v. dict_get p ''page'' = Some v \<longrightarrow> wf_json v \<and> v \<noteq> JNull \<and> \<not> is_dict v) \<longrightarrow>
            more_pages (JDict d) = Inr False)
       \<and> (dict_get p ''page'' = None \<longrightarrow>
            (\<forall>v x. dict_get p ''pages'' = Some v \<longrightarrow> num_of v = Some x \<longrightarrow> 1 < x \<longrightarrow>
               more_pages (JDict d) = Inr True))"
proof (intro conjI impI allI)
  assume none: "dict_get p ''pages'' = None"
    and ok: "\<forall>v. dict_get p ''page'' = Some v \<longrightarrow> wf_json v \<and> v \<noteq> JNull \<and> \<not> is_dict v"
  show "more_pages (JDict d) = Inr False"
  proof (cases "dict_get p ''page''")
    case None
    with none show ?thesis by (simp add: more_pages_dict [OF assms])
  next
    case (Some v)
    with ok have "py_lt v v = Inr False" by (simp add: py_lt_refl)
    with none Some show ?thesis by (simp add: more_pages_dict [OF assms])
  qed
next
  fix v x
  assume "dict_get p ''page'' = None" and "dict_get p ''pages'' = Some v"
    and "num_of v = Some x" and "1 < x"
  then show "more_pages (JDict d) = Inr True"
    by (cases v) (simp_all add: more_pages_dict [OF assms])
qed

theorem more_pages_defaults_witness:
  "dict_get [(''data'', JList []), (''pagination'', JDict [(''page'', JInt 3)])] ''pagination''
     = Some (JDict [(''page'', JInt 3)])
   \<and> more_pages (JDict [(''data'', JList []), (''pagination'', JDict [(''page'', JInt 3)])])
       = Inr False
   \<and> dict_get [(''data'', JList []), (''pagination'', JDict [(''pages'', JInt 4)])] ''pagination''
     = Some (JDict [(''pages'', JInt 4)])
   \<and> more_pages (JDict [(''data'', JList []), (''pagination'', JDict [(''pages'', JInt 4)])])
       = Inr True"
proof -
  let ?d1 = "[(''data'', JList []), (''pagination'', JDict [(''page'', JInt 3)])]"
  let ?d2 = "[(''data'', JList []), (''pagination'', JDict [(''pages'', JInt 4)])]"
  have p1: "dict_get ?d1 ''pagination'' = Some (JDict [(''page'', JInt 3)])"
    by (simp add: dict_get_def)
  have p2: "dict_get ?d2 ''pagination'' = Some (JDict [(''pages'', JInt 4)])"
    by (simp add: dict_get_def)
  have stop: "more_pages (JDict ?d1) = Inr False"
    using more_pages_defaults [OF p1] by (simp add: dict_get_def)
  have go: "more_pages (JDict ?d2) = Inr True"
    using more_pages_defaults [OF p2] by (simp add: dict_get_def)
  from p1 p2 stop go show ?thesis by (intro conjI)
qed

text \<open>
  A pagination mapping without \<^verbatim>\<open>pages\<close> whose \<^verbatim>\<open>page\<close> is \<^verbatim>\<open>null\<close>: the page is not
  treated as the last one, the comparison \<^verbatim>\<open>None < None\<close> raises \<^verbatim>\<open>TypeError\<close>.
\<close>

theorem more_pages_null_page:
  "more_pages (JDict [(''data'', JList []), (''pagination'', JDict [(''page'', JNull)])])
     = Inl TypeError"
  by (simp add: more_pages_def key_is_def dict_get_def)

subsection \<open>The caller's parameters\<close>

lemma loop_body_frame:
  "loop_body g e p s = Inr s' \<Longrightarrow> take p (heap s') = take p (heap s)"
  "loop_body g e p s = Inl r \<Longrightarrow> take p (final_heap r) = take p (heap s)"
  by (auto simp: loop_body_def Let_def split: http_result.splits sum.splits bool.splits)

lemma iterations_frame:
  "iterations g e p n s = Inr s' \<Longrightarrow> take p (heap s') = take p (heap s)"
proof (induction n arbitrary: s)
  case 0
  then show ?case by simp
next
  case (Suc n)
  from Suc.prems obtain s1 where body: "loop_body g e p s = Inr s1"
    and rest: "iterations g e p n s1 = Inr s'"
    by (auto split: if_splits sum.splits)
  from Suc.IH [OF rest] loop_body_frame(1) [OF body] show ?case by simp
qed

lemma fetch_loop_frame:
  assumes "fetch_loop g e p s = Some r"
  shows "take p (final_heap r) = take p (heap s)"
proof (rule fetch_loop.raw_induct
    [where P = "\<lambda>g e p s r. take p (final_heap r) = take p (heap s)", OF _ assms])
  fix f g e p s r
  assume IH: "\<And>g e p s r. f g e p s = Some r \<Longrightarrow> take p (final_heap r) = take p (heap s)"
    and eq: "(if has_more_pages s
              then case loop_body g e p s of Inl r \<Rightarrow> Some r | Inr s' \<Rightarrow> f g e p s'
              else Some (leave_loop s)) = Some r"
  show "take p (final_heap r) = take p (heap s)"
  proof (cases "has_more_pages s")
    case False
    with eq show ?thesis by (auto simp: leave_loop_def)
  next
    case True
    show ?thesis
    proof (cases "loop_body g e p s")
      case (Inl r')
      with True eq loop_body_frame(2) [OF Inl] show ?thesis by simp
    next
      case (Inr s')
      with True eq have "f g e p s' = Some r" by simp
      from IH [OF this] loop_body_frame(1) [OF Inr] show ?thesis by simp
    qed
  qed
qed

text \<open>
  Claim C9. The dict that the caller passes is never changed: after any number of passes
  through the loop, and when the call has ended in whatever way, every object that was
  in the store before the call, the caller's dict among them, is as it was. The page
  counter goes into the copy only. (The network reads the parameters; it is taken not to
  write them.)
\<close>

theorem fetch_nba_data_keeps_params:
  assumes "a < length h"
  shows "(\<forall>n s. iterations http_get endpoint (length h) n (fetch_init (Some a) h) = Inr s
             \<longrightarrow> take (length h) (heap s) = h \<and> heap s ! a = h ! a)
       \<and> (\<forall>r. fetch_nba_data http_get endpoint (Some a) h = Some r
             \<longrightarrow> take (length h) (final_heap r) = h \<and> final_heap r ! a = h ! a)"
proof (intro conjI allI impI)
  fix n s
  assume "iterations http_get endpoint (length h) n (fetch_init (Some a) h) = Inr s"
  from iterations_frame [OF this]
  show t: "take (length h) (heap s) = h" by (simp add: fetch_init_def)
  from assms have "take (length h) (heap s) ! a = heap s ! a" by simp
  with t show "heap s ! a = h ! a" by simp
next
  fix r
  assume "fetch_nba_data http_get endpoint (Some a) h = Some r"
  then have "fetch_loop http_get endpoint (length h) (fetch_init (Some a) h) = Some r"
    by (simp add: fetch_nba_data_def)
  from fetch_loop_frame [OF this]
  show t: "take (length h) (final_heap r) = h" by (simp add: fetch_init_def)
  from assms have "take (length h) (final_heap r) ! a = final_heap r ! a" by simp
  with t show "final_heap r ! a = h ! a" by simp
qed

theorem fetch_nba_data_keeps_params_witness:
  "0 < length [[(''season'', JInt 2024)]]
   \<and> (\<exists>r. fetch_nba_data
           (mock_server
              [Parsed (JDict [(''data'', JList [JDict [(''ID'', JInt 1)]]),
                              (''pagination'', JDict [(''page'', JInt 1), (''pages'', JInt 2)])]),
               Parsed (JDict [(''data'', JList [JDict [(''ID'', JInt 2)]]),
                              (''pagination'', JDict [(''page'', JInt 2), (''pages'', JInt 2)])])]
              RequestException)
           ''/api/games'' (Some 0) [[(''season'', JInt 2024)]] = Some r
        \<and> requests r = [page_request ''/api/games'' [(''season'', JInt 2024)] 1,
                         page_request ''/api/games'' [(''season'', JInt 2024)] 2]
        \<and> final_heap r ! 0 = [(''season'', JInt 2024)])"
proof -
  let ?g = "mock_server
              [Parsed (JDict [(''data'', JList [JDict [(''ID'', JInt 1)]]),
                              (''pagination'', JDict [(''page'', JInt 1), (''pages'', JInt 2)])]),
               Parsed (JDict [(''data'', JList [JDict [(''ID'', JInt 2)]]),
                              (''pagination'', JDict [(''page'', JInt 2), (''pages'', JInt 2)])])]
              RequestException"
  let ?h = "[[(''season'', JInt 2024)]]"
  let ?r = "\<lparr>returned = Inr (Some [JDict [(''ID'', JInt 1)], JDict [(''ID'', JInt 2)]]),
            requests = [page_request ''/api/games'' [(''season'', JInt 2024)] 1,
                        page_request ''/api/games'' [(''season'', JInt 2024)] 2],
            final_heap = [[(''season'', JInt 2024)],
                          [(''season'', JInt 2024), (''page'', JInt 2)]]\<rparr>"
  have valid: "0 < length ?h" by simp
  have run: "fetch_nba_data ?g ''/api/games'' (Some 0) ?h = Some ?r"
    by code_simp
  from fetch_nba_data_keeps_params [OF valid, of ?g "''/api/games''"] run
  have "final_heap ?r ! 0 = ?h ! 0" by blast
  then have "final_heap ?r ! 0 = [(''season'', JInt 2024)]" by simp
  with valid run show ?thesis by (intro conjI exI [of _ ?r]) simp_all
qed

subsection \<open>Success with no records\<close>

lemma loop_body_parsed_leaves:
  assumes "\<forall>k req. \<exists>b. g k req = Parsed b" and "loop_body g e p s = Inl r"
  shows "\<exists>x. returned r = Inl x"
proof -
  let ?h = "(heap s)[p := dict_set ''page'' (JInt (page s)) (heap s ! p)]"
  let ?req = "\<lparr>url = NBA_API_BASE_URL @ e, query = ?h ! p\<rparr>"
  from assms(1) obtain b where "g (length (issued s)) ?req = Parsed b" by blast
  with assms(2) show ?thesis
    by (auto simp: loop_body_def Let_def split: sum.splits bool.splits)
qed

lemma fetch_loop_never_none:
  assumes "fetch_loop g e p s = Some r" and parsed: "\<forall>k req. \<exists>b. g k req = Parsed b"
  shows "returned r \<noteq> Inr None"
proof -
  have "(\<forall>k req. \<exists>b. g k req = Parsed b) \<longrightarrow> returned r \<noteq> Inr None"
  proof (rule fetch_loop.raw_induct
      [where P = "\<lambda>g e p s r. (\<forall>k req. \<exists>b. g k req = Parsed b) \<longrightarrow> returned r \<noteq> Inr None",
       OF _ assms(1)])
    fix f g e p s r
    assume IH: "\<And>g e p s r. f g e p s = Some r \<Longrightarrow>
                  (\<forall>k req. \<exists>b. g k req = Parsed b) \<longrightarrow> returned r \<noteq> Inr None"
      and eq: "(if has_more_pages s
                then case loop_body g e p s of Inl r \<Rightarrow> Some r | Inr s' \<Rightarrow> f g e p s'
                else Some (leave_loop s)) = Some r"
    show "(\<forall>k req. \<exists>b. g k req = Parsed b) \<longrightarrow> returned r \<noteq> Inr None"
    proof
      assume all: "\<forall>k req. \<exists>b. g k req = Parsed b"
      show "returned r \<noteq> Inr None"
      proof (cases "has_more_pages s")
        case False
        with eq show ?thesis by (auto simp: leave_loop_def)
      next
        case True
        show ?thesis
        proof (cases "loop_body g e p s")
          case (Inl r')
          with True eq have "r' = r" by simp
          with loop_body_parsed_leaves [OF all Inl] show ?thesis by auto
        next
          case (Inr s')
          with True eq have "f g e p s' = Some r" by simp
          from IH [OF this] all show ?thesis by simp
        qed
      qed
    qed
  qed
  with parsed show ?thesis by simp
qed

text \<open>
  Claim C6, as the code has it. When every request succeeds and parses, the call never
  returns \<^verbatim>\<open>None\<close>. When moreover the bodies are gathered and their pagination tests
  evaluated without a type error, and one of them ends the pagination, the call returns
  the gathered records, also when there are none: the empty list, which is not \<^verbatim>\<open>None\<close>.
\<close>

theorem fetch_nba_data_success:
  assumes "\<forall>k req. \<exists>b. http_get k req = Parsed b"
  shows "(\<forall>r. fetch_nba_data http_get endpoint params h = Some r \<longrightarrow> returned r \<noteq> Inr None)
       \<and> (\<forall>bodies acc.
            bodies \<noteq> [] \<longrightarrow>
            (\<forall>i<length bodies.
               http_get i (page_request endpoint (params_copy params h) (int i + 1))
                 = Parsed (bodies ! i)) \<longrightarrow>
            (\<forall>i<length bodies - 1. more_pages (bodies ! i) = Inr True) \<longrightarrow>
            more_pages (last bodies) = Inr False \<longrightarrow>
            collect 1 [] bodies = Inr acc \<longrightarrow>
            (\<exists>r. fetch_nba_data http_get endpoint params h = Some r
                \<and> returned r = Inr (Some acc) \<and> returned r \<noteq> Inr None))"
proof (intro conjI allI impI)
  fix r
  assume "fetch_nba_data http_get endpoint params h = Some r"
  then have "fetch_loop http_get endpoint (length h) (fetch_init params h) = Some r"
    by (simp add: fetch_nba_data_def)
  from fetch_loop_never_none [OF this assms] show "returned r \<noteq> Inr None" .
next
  fix bodies acc
  assume "bodies \<noteq> []"
    and "\<forall>i<length bodies.
            http_get i (page_request endpoint (params_copy params h) (int i + 1))
              = Parsed (bodies ! i)"
    and "\<forall>i<length bodies - 1. more_pages (bodies ! i) = Inr True"
    and "more_pages (last bodies) = Inr False"
    and "collect 1 [] bodies = Inr acc"
  with fetch_pages [of bodies http_get endpoint params h acc]
  show "\<exists>r. fetch_nba_data http_get endpoint params h = Some r
           \<and> returned r = Inr (Some acc) \<and> returned r \<noteq> Inr None"
    by auto
qed

theorem fetch_nba_data_success_witness:
  "(\<forall>k req. \<exists>b. mock_server [] (Parsed (JDict [(''data'', JList [])])) k req = Parsed b)
   \<and> (\<exists>r. fetch_nba_data (mock_server [] (Parsed (JDict [(''data'', JList [])])))
            ''/api/games'' None [] = Some r
         \<and> returned r = Inr (Some []) \<and> returned r \<noteq> Inr None)"
proof -
  let ?b = "JDict [(''data'', JList [])]"
  let ?g = "mock_server [] (Parsed ?b)"
  have parsed: "\<forall>k req. \<exists>b. ?g k req = Parsed b"
    by (simp add: mock_server_def)
  have resp: "\<forall>i<length [?b]. ?g i (page_request ''/api/games'' (params_copy None []) (int i + 1))
                = Parsed ([?b] ! i)"
    by (simp add: mock_server_def)
  have cont: "\<forall>i<length [?b] - 1. more_pages ([?b] ! i) = Inr True"
    by simp
  have stop: "more_pages (last [?b]) = Inr False"
    by (simp add: more_pages_def key_is_def)
  have coll: "collect 1 [] [?b] = Inr []"
    by (simp add: extend_all_data_def key_is_def dict_get_def)
  from fetch_nba_data_success [OF parsed, of "''/api/games''" None "[]"]
  have "[?b] \<noteq> [] \<longrightarrow>
            (\<forall>i<length [?b].
               ?g i (page_request ''/api/games'' (params_copy None []) (int i + 1))
                 = Parsed ([?b] ! i)) \<longrightarrow>
            (\<forall>i<length [?b] - 1. more_pages ([?b] ! i) = Inr True) \<longrightarrow>
            more_pages (last [?b]) = Inr False \<longrightarrow>
            collect 1 [] [?b] = Inr [] \<longrightarrow>
            (\<exists>r. fetch_nba_data ?g ''/api/games'' None [] = Some r
                \<and> returned r = Inr (Some []) \<and> returned r \<noteq> Inr None)"
    by blast
  with resp cont stop coll
  have "\<exists>r. fetch_nba_data ?g ''/api/games'' None [] = Some r
                \<and> returned r = Inr (Some []) \<and> returned r \<noteq> Inr None"
    by blast
  with parsed show ?thesis by (intro conjI)
qed

text \<open>
  Every request succeeds and parses, to \<^verbatim>\<open>null\<close>: the call does not return the gathered
  records, it ends with an uncaught \<^verbatim>\<open>TypeError\<close>.
\<close>

theorem fetch_nba_data_null_body:
  "fetch_nba_data (mock_server [] (Parsed JNull)) ''/api/games'' None [] =
     Some \<lparr>returned = Inl TypeError, requests = [page_request ''/api/games'' [] 1],
           final_heap = [[(''page'', JInt 1)]]\<rparr>"
  by code_simp

end
